theory Spec2Isabelle
  imports Main "HOL-Library.Word" "HOL-Library.Sublist"
begin

section \<open>JavaScript strings\<close>

text \<open>
  A JavaScript string is a sequence of 16-bit UTF-16 code units; \<open>length\<close>,
  \<open>indexOf\<close>, \<open>substring\<close>, \<open>includes\<close>, \<open>split\<close> and the regular expressions
  of the source (none has the \<open>u\<close> flag) all work on code units.
\<close>

type_synonym jschar = "16 word"
type_synonym jsstring = "jschar list"

definition LF :: jschar where "LF = 0x0A"
definition CR :: jschar where "CR = 0x0D"
definition COMMA :: jschar where "COMMA = 0x2C"
definition HYPHEN :: jschar where "HYPHEN = 0x2D"
definition PERIOD :: jschar where "PERIOD = 0x2E"

text \<open>
  The code units matched by \<open>\s\<close> in a regular expression and stripped by
  \<open>String.prototype.trim\<close>: ECMAScript's WhiteSpace and LineTerminator.
\<close>

definition is_space :: "jschar \<Rightarrow> bool" where
  "is_space c \<longleftrightarrow> c \<in> set [0x09, 0x0A, 0x0B, 0x0C, 0x0D, 0x20, 0xA0, 0x1680,
      0x2000, 0x2001, 0x2002, 0x2003, 0x2004, 0x2005, 0x2006, 0x2007, 0x2008, 0x2009, 0x200A,
      0x2028, 0x2029, 0x202F, 0x205F, 0x3000, 0xFEFF]"

text \<open>\<open>s.trim()\<close>\<close>

definition trim :: "jsstring \<Rightarrow> jsstring" where
  "trim s = rev (dropWhile is_space (rev (dropWhile is_space s)))"

text \<open>\<open>s.startsWith(k)\<close>, the test \<open>includes\<close> and \<open>indexOf\<close> make at each position\<close>

fun starts_with :: "jsstring \<Rightarrow> jsstring \<Rightarrow> bool" where
  "starts_with s [] = True"
| "starts_with [] (k # ks) = False"
| "starts_with (c # cs) (k # ks) = (c = k \<and> starts_with cs ks)"

text \<open>\<open>s.includes(k)\<close>: \<open>k\<close> occurs in \<open>s\<close> as a contiguous run of code units\<close>

fun includes_str :: "jsstring \<Rightarrow> jsstring \<Rightarrow> bool" where
  "includes_str [] k = (k = [])"
| "includes_str (c # cs) k = (starts_with (c # cs) k \<or> includes_str cs k)"

text \<open>\<open>s.indexOf(k)\<close>: the least position where \<open>k\<close> occurs, or \<open>-1\<close>\<close>

fun indexOf :: "jsstring \<Rightarrow> jsstring \<Rightarrow> int" where
  "indexOf [] k = (if k = [] then 0 else - 1)"
| "indexOf (c # cs) k =
     (if starts_with (c # cs) k then 0
      else (let i = indexOf cs k in if i = - 1 then - 1 else i + 1))"

text \<open>\<open>s.substring(n)\<close>: a negative start counts as 0, one beyond the end as the length\<close>

definition substring :: "jsstring \<Rightarrow> int \<Rightarrow> jsstring" where
  "substring s n = drop (nat n) s"

text \<open>
  \<open>s.split(/\r?\n/)\<close>: the scan keeps the piece collected since the last separator;
  at each position the expression matches CR LF (two units) or LF (one unit).
\<close>

fun split_lines_from :: "jsstring \<Rightarrow> jsstring \<Rightarrow> jsstring list" where
  "split_lines_from piece [] = [piece]"
| "split_lines_from piece (c # cs) =
     (if c = CR \<and> take 1 cs = [LF] then piece # split_lines_from [] (drop 1 cs)
      else if c = LF then piece # split_lines_from [] cs
      else split_lines_from (piece @ [c]) cs)"

definition split_lines :: "jsstring \<Rightarrow> jsstring list" where
  "split_lines s = split_lines_from [] s"

text \<open>\<open>s.split(',')\<close>\<close>

fun split_comma_from :: "jsstring \<Rightarrow> jsstring \<Rightarrow> jsstring list" where
  "split_comma_from piece [] = [piece]"
| "split_comma_from piece (c # cs) =
     (if c = COMMA then piece # split_comma_from [] cs
      else split_comma_from (piece @ [c]) cs)"

definition split_comma :: "jsstring \<Rightarrow> jsstring list" where
  "split_comma s = split_comma_from [] s"

section \<open>Rule table loader\<close>

record rule =
  keyword :: jsstring
  driver :: jsstring

text \<open>The header marker \<open>'\<dots>'\<close> of \<open>parseCSV\<close>: U+D0A4 U+C6CC U+B4DC.\<close>

definition HEADER_MARKER :: jsstring where
  "HEADER_MARKER = [0xD0A4, 0xC6CC, 0xB4DC]"

text \<open>
  The \<open>for\<close> loop of \<open>parseCSV\<close>: \<open>i\<close> runs to \<open>lines.length\<close>, \<open>data\<close> grows by
  \<open>push\<close>. Blank lines and lines with fewer than two parts are skipped.
\<close>

function parse_rows :: "jsstring list \<Rightarrow> nat \<Rightarrow> rule list \<Rightarrow> rule list" where
  "parse_rows lines i data =
     (if i < length lines then
        (let line = trim (lines ! i) in
         if line = [] then parse_rows lines (i + 1) data
         else
           (let parts = split_comma line in
            if 2 \<le> length parts then
              parse_rows lines (i + 1)
                (data @ [\<lparr>keyword = trim (parts ! 0), driver = trim (parts ! 1)\<rparr>])
            else parse_rows lines (i + 1) data))
      else data)"
  by pat_completeness auto
termination
  by (relation "measure (\<lambda>(lines, i, data). length lines - i)") auto

declare parse_rows.simps [simp del]

definition parseCSV :: "jsstring \<Rightarrow> rule list" where
  "parseCSV csvText =
     (let lines = split_lines csvText;
          startLine = (if lines ! 0 \<noteq> [] \<and> includes_str (lines ! 0) HEADER_MARKER
                       then 1 else 0)
      in parse_rows lines startLine [])"

section \<open>Anchor extractor\<close>

text \<open>The anchors of \<open>extractAddressAfterAnchor\<close>: U+D574 U+C6B4 U+B300, then U+BD80 U+C0B0.\<close>

definition HAEUNDAE :: jsstring where
  "HAEUNDAE = [0xD574, 0xC6B4, 0xB300]"

definition BUSAN :: jsstring where
  "BUSAN = [0xBD80, 0xC0B0]"

definition extractAddressAfterAnchor :: "jsstring \<Rightarrow> jsstring" where
  "extractAddressAfterAnchor text =
     (let haeundaeIndex = indexOf text HAEUNDAE in
      if haeundaeIndex \<noteq> - 1 then trim (substring text (haeundaeIndex + 3))
      else
        (let busanIndex = indexOf text BUSAN in
         if busanIndex \<noteq> - 1 then trim (substring text (busanIndex + 2))
         else text))"

section \<open>Matcher\<close>

text \<open>
  \<open>findDriver\<close> of \<open>app.js\<close>: exact containment only. The global \<open>driverData\<close> is
  a parameter; \<open>null\<close> is \<open>None\<close>.
\<close>

fun findDriver_loop :: "jsstring \<Rightarrow> rule list \<Rightarrow> rule option" where
  "findDriver_loop text [] = None"
| "findDriver_loop text (rule # rest) =
     (if includes_str text (keyword rule) then Some rule
      else findDriver_loop text rest)"

definition findDriver :: "jsstring \<Rightarrow> rule list \<Rightarrow> rule option" where
  "findDriver text driverData =
     (if text = [] then None else findDriver_loop text driverData)"

text \<open>
  \<open>findDriver\<close> of the photo-upload variant ("Matching Algorithm (Normalized)"):
  \<open>replace(/[\s\.\-\,]+/g, '')\<close> deletes every run of whitespace, periods, hyphens
  and commas, that is, every such code unit.
\<close>

definition is_noise :: "jschar \<Rightarrow> bool" where
  "is_noise c \<longleftrightarrow> is_space c \<or> c = PERIOD \<or> c = HYPHEN \<or> c = COMMA"

definition normalize_str :: "jsstring \<Rightarrow> jsstring" where
  "normalize_str s = filter (\<lambda>c. \<not> is_noise c) s"

fun findDriver_normalized_loop :: "jsstring \<Rightarrow> jsstring \<Rightarrow> rule list \<Rightarrow> rule option" where
  "findDriver_normalized_loop text normalizedText [] = None"
| "findDriver_normalized_loop text normalizedText (rule # rest) =
     (let normalizedKeyword = normalize_str (keyword rule) in
      if includes_str text (keyword rule) then Some rule
      else if includes_str normalizedText normalizedKeyword then Some rule
      else findDriver_normalized_loop text normalizedText rest)"

definition findDriver_normalized :: "jsstring \<Rightarrow> rule list \<Rightarrow> rule option" where
  "findDriver_normalized text driverData =
     (if text = [] then None
      else (let normalizedText = normalize_str text in
            findDriver_normalized_loop text normalizedText driverData))"

section \<open>Vocabulary of the properties\<close>

text \<open>
  What one line of the table contributes: the body of the loop of \<open>parseCSV\<close>,
  read as a function of the line alone.
\<close>

definition row_rules :: "jsstring \<Rightarrow> rule list" where
  "row_rules l =
     (let line = trim l in
      if line = [] then []
      else
        (let parts = split_comma line in
         if 2 \<le> length parts then [\<lparr>keyword = trim (parts ! 0), driver = trim (parts ! 1)\<rparr>]
         else []))"

text \<open>\<open>ls.join(sep)\<close>: the lines of a table file put together with one line ending\<close>

fun join_with :: "jsstring \<Rightarrow> jsstring list \<Rightarrow> jsstring" where
  "join_with sep [] = []"
| "join_with sep [l] = l"
| "join_with sep (l # m # ls) = l @ sep @ join_with sep (m # ls)"

text \<open>The line of the table file that states a rule: keyword, comma, driver.\<close>

definition rule_line :: "rule \<Rightarrow> jsstring" where
  "rule_line r = keyword r @ [COMMA] @ driver r"

text \<open>
  A field that a table file can state as it is: no surrounding whitespace, no comma,
  no line feed.
\<close>

definition plain_field :: "jsstring \<Rightarrow> bool" where
  "plain_field f \<longleftrightarrow> trim f = f \<and> COMMA \<notin> set f \<and> LF \<notin> set f"

text \<open>
  The content of one line: no line feed in it, and no carriage return at its end
  (a carriage return elsewhere in a line is ordinary whitespace).
\<close>

definition plain_line :: "jsstring \<Rightarrow> bool" where
  "plain_line l \<longleftrightarrow> LF \<notin> set l \<and> (l \<noteq> [] \<longrightarrow> last l \<noteq> CR)"


section \<open>Sample inputs\<close>

text \<open>Texts and rules in ASCII: \<open>a\<close> is 0x61, \<open>x\<close> 0x78, \<open>X\<close> 0x58, space 0x20.\<close>

definition text_abc :: jsstring where
  "text_abc = [0x61, 0x62, 0x63]"

definition text_cb :: jsstring where
  "text_cb = [0x63, 0x62]"

text \<open>Keyword \<open>a b\<close> with a space inside, driver \<open>X\<close>; keyword \<open>c\<close>, driver \<open>Y\<close>.\<close>

definition rule_a_b :: rule where
  "rule_a_b = \<lparr>keyword = [0x61, 0x20, 0x62], driver = [0x58]\<rparr>"

definition rule_c :: rule where
  "rule_c = \<lparr>keyword = [0x63], driver = [0x59]\<rparr>"

text \<open>Keyword \<open>ab\<close>, driver \<open>X\<close>; keyword \<open>b\<close>, driver \<open>Y\<close>.\<close>

definition rule_ab :: rule where
  "rule_ab = \<lparr>keyword = [0x61, 0x62], driver = [0x58]\<rparr>"

definition rule_b :: rule where
  "rule_b = \<lparr>keyword = [0x62], driver = [0x59]\<rparr>"

text \<open>Keyword \<open>a\<close>, driver \<open>X\<close>; the empty keyword, driver \<open>Y\<close>.\<close>

definition rule_a :: rule where
  "rule_a = \<lparr>keyword = [0x61], driver = [0x58]\<rparr>"

definition rule_empty :: rule where
  "rule_empty = \<lparr>keyword = [], driver = [0x59]\<rparr>"

text \<open>Keyword \<open>x\<close>, driver \<open>X\<close>; keyword space, period, hyphen, comma, driver \<open>Y\<close>.\<close>

definition rule_x :: rule where
  "rule_x = \<lparr>keyword = [0x78], driver = [0x58]\<rparr>"

definition rule_noise :: rule where
  "rule_noise = \<lparr>keyword = [0x20, 0x2E, 0x2D, 0x2C], driver = [0x59]\<rparr>"

text \<open>
  The label of the extractor's example: three periods, U+AD11 U+ACE0, a space, the first
  anchor, a space, U+B300 U+B85C, a space, \<open>123\<close>, three periods.
\<close>

definition label_with_dots :: jsstring where
  "label_with_dots =
     [0x2E, 0x2E, 0x2E, 0xAD11, 0xACE0, 0x20, 0xD574, 0xC6B4, 0xB300, 0x20,
      0xB300, 0xB85C, 0x20, 0x31, 0x32, 0x33, 0x2E, 0x2E, 0x2E]"

text \<open>The same label ending after \<open>123\<close>.\<close>

definition label_ending :: jsstring where
  "label_ending =
     [0x2E, 0x2E, 0x2E, 0xAD11, 0xACE0, 0x20, 0xD574, 0xC6B4, 0xB300, 0x20,
      0xB300, 0xB85C, 0x20, 0x31, 0x32, 0x33]"

text \<open>A label that begins with the second anchor and has the first one further right.\<close>

definition label_both_anchors :: jsstring where
  "label_both_anchors =
     [0xBD80, 0xC0B0, 0x20, 0xAD11, 0xACE0, 0x20, 0xD574, 0xC6B4, 0xB300, 0x20,
      0xB300, 0xB85C, 0x20, 0x31, 0x32, 0x33]"

text \<open>U+B300 U+B85C, a space, \<open>123\<close>; and the same followed by three periods.\<close>

definition road_123 :: jsstring where
  "road_123 = [0xB300, 0xB85C, 0x20, 0x31, 0x32, 0x33]"

definition road_123_dots :: jsstring where
  "road_123_dots = [0xB300, 0xB85C, 0x20, 0x31, 0x32, 0x33, 0x2E, 0x2E, 0x2E]"

text \<open>Table files: \<open>a,X\<close>, \<open>b,Y\<close>, \<open>a,Z\<close> on three lines ended by LF.\<close>

definition csv_three :: jsstring where
  "csv_three = [0x61, 0x2C, 0x58, 0x0A, 0x62, 0x2C, 0x59, 0x0A, 0x61, 0x2C, 0x5A]"

definition rules_three :: "rule list" where
  "rules_three =
     [\<lparr>keyword = [0x61], driver = [0x58]\<rparr>, \<lparr>keyword = [0x62], driver = [0x59]\<rparr>,
      \<lparr>keyword = [0x61], driver = [0x5A]\<rparr>]"

text \<open>\<open>a,X\<close> and \<open>b,Y\<close>: as two lines, joined by LF, and joined by a CR alone.\<close>

definition lines_two :: "jsstring list" where
  "lines_two = [[0x61, 0x2C, 0x58], [0x62, 0x2C, 0x59]]"

definition csv_two_LF :: jsstring where
  "csv_two_LF = [0x61, 0x2C, 0x58, 0x0A, 0x62, 0x2C, 0x59]"

definition csv_two_CR :: jsstring where
  "csv_two_CR = [0x61, 0x2C, 0x58, 0x0D, 0x62, 0x2C, 0x59]"

definition rules_two :: "rule list" where
  "rules_two = [\<lparr>keyword = [0x61], driver = [0x58]\<rparr>, \<lparr>keyword = [0x62], driver = [0x59]\<rparr>]"

text \<open>The file \<open>a,X\<close>, LF, \<open>,Y\<close>: its second line has no keyword.\<close>

definition csv_a_then_no_keyword :: jsstring where
  "csv_a_then_no_keyword = [0x61, 0x2C, 0x58, 0x0A, 0x2C, 0x59]"

text \<open>The file \<open>,X\<close>, and the file space, \<open>,X\<close>: one line whose first field is blank.\<close>

definition csv_no_keyword :: jsstring where
  "csv_no_keyword = [0x2C, 0x58]"

definition csv_blank_keyword :: jsstring where
  "csv_blank_keyword = [0x20, 0x2C, 0x58]"

section \<open>Strings: containment and position\<close>

lemma starts_with_prefix: "starts_with s k \<longleftrightarrow> prefix k s"
  by (induction s k rule: starts_with.induct) auto

lemma includes_str_sublist: "includes_str t k \<longleftrightarrow> sublist k t"
  by (induction t) (auto simp: starts_with_prefix sublist_Cons_right)

lemma includes_str_iff: "includes_str t k \<longleftrightarrow> (\<exists>pre post. t = pre @ k @ post)"
  by (simp add: includes_str_sublist sublist_def)

lemma includes_str_Nil [simp]: "includes_str t []"
  by (cases t) auto

lemma indexOf_ge: "- 1 \<le> indexOf t k"
  by (induction t) (auto simp: Let_def)

lemma indexOf_none: "indexOf t k = - 1 \<longleftrightarrow> \<not> includes_str t k"
proof (induction t)
  case Nil
  show ?case by simp
next
  case (Cons c cs)
  have "indexOf cs k + 1 \<noteq> - 1" using indexOf_ge [of cs k] by arith
  with Cons show ?case by (auto simp: Let_def)
qed

lemma indexOf_leftmost:
  "includes_str t k \<Longrightarrow>
   \<exists>pre post. t = pre @ k @ post \<and> indexOf t k = int (length pre) \<and>
     (\<forall>pre' post'. t = pre' @ k @ post' \<longrightarrow> length pre \<le> length pre')"
proof (induction t)
  case Nil
  then show ?case by simp
next
  case (Cons c cs)
  show ?case
  proof (cases "starts_with (c # cs) k")
    case True
    then obtain post where "c # cs = k @ post"
      by (auto simp: starts_with_prefix prefix_def)
    moreover from True have "indexOf (c # cs) k = 0" by simp
    ultimately have "c # cs = [] @ k @ post \<and>
        indexOf (c # cs) k = int (length ([]::jsstring)) \<and>
        (\<forall>pre' post'. c # cs = pre' @ k @ post' \<longrightarrow> length ([]::jsstring) \<le> length pre')"
      by simp
    then show ?thesis by blast
  next
    case False
    with Cons.prems have inc: "includes_str cs k" by simp
    from Cons.IH [OF inc] obtain pre post where
      t: "cs = pre @ k @ post" and i: "indexOf cs k = int (length pre)" and
      least: "\<forall>pre' post'. cs = pre' @ k @ post' \<longrightarrow> length pre \<le> length pre'"
      by blast
    have "length (c # pre) \<le> length pre'" if eq: "c # cs = pre' @ k @ post'" for pre' post'
    proof (cases pre')
      case Nil
      with eq have "prefix k (c # cs)" by (simp add: prefix_def)
      with False show ?thesis by (simp add: starts_with_prefix)
    next
      case (Cons d ds)
      with eq have "cs = ds @ k @ post'" by simp
      with least have "length pre \<le> length ds" by blast
      with Cons show ?thesis by simp
    qed
    with False t i have "c # cs = (c # pre) @ k @ post \<and>
        indexOf (c # cs) k = int (length (c # pre)) \<and>
        (\<forall>pre' post'. c # cs = pre' @ k @ post' \<longrightarrow> length (c # pre) \<le> length pre')"
      by (simp add: Let_def)
    then show ?thesis by blast
  qed
qed

lemma normalize_str_append: "normalize_str (a @ b) = normalize_str a @ normalize_str b"
  by (simp add: normalize_str_def)

lemma includes_str_normalize:
  "includes_str t k \<Longrightarrow> includes_str (normalize_str t) (normalize_str k)"
proof -
  assume "includes_str t k"
  then obtain pre post where "t = pre @ k @ post" by (auto simp: includes_str_iff)
  then have "normalize_str t = normalize_str pre @ normalize_str k @ normalize_str post"
    by (simp add: normalize_str_append)
  then show ?thesis unfolding includes_str_iff by blast
qed

lemma findDriver_loop_find:
  "findDriver_loop text table = List.find (\<lambda>r. includes_str text (keyword r)) table"
  by (induction table) auto

lemma findDriver_normalized_loop_find:
  "findDriver_normalized_loop text (normalize_str text) table =
     List.find (\<lambda>r. includes_str (normalize_str text) (normalize_str (keyword r))) table"
  by (induction table) (auto simp: Let_def includes_str_normalize)

section \<open>The matchers as searches\<close>

lemma find_first_index:
  assumes "i < length xs" and "P (xs ! i)"
  shows "\<exists>m\<le>i. List.find P xs = Some (xs ! m) \<and> P (xs ! m) \<and> (\<forall>k<m. \<not> P (xs ! k))"
proof -
  from assms have "\<exists>x. x \<in> set xs \<and> P x" by (metis nth_mem)
  then obtain x where "List.find P xs = Some x"
    by (cases "List.find P xs") (auto simp: find_None_iff)
  then obtain m where m: "m < length xs" "P (xs ! m)" "x = xs ! m" "\<forall>k<m. \<not> P (xs ! k)"
    by (auto simp: find_Some_iff)
  from m(4) assms(2) have "m \<le> i" by (meson not_le)
  with m \<open>List.find P xs = Some x\<close> show ?thesis by blast
qed

lemma findDriver_find:
  "text \<noteq> [] \<Longrightarrow>
   findDriver text table = List.find (\<lambda>r. includes_str text (keyword r)) table"
  by (simp add: findDriver_def findDriver_loop_find)

lemma findDriver_normalized_find:
  "text \<noteq> [] \<Longrightarrow>
   findDriver_normalized text table =
     List.find (\<lambda>r. includes_str (normalize_str text) (normalize_str (keyword r))) table"
  by (simp add: findDriver_normalized_def findDriver_normalized_loop_find)

lemma normalize_str_empty_iff: "normalize_str k = [] \<longleftrightarrow> (\<forall>c\<in>set k. is_noise c)"
  by (auto simp: normalize_str_def filter_empty_conv)

section \<open>Trimming and splitting\<close>

lemma trim_Cons_nonspace:
  "\<not> is_space c \<Longrightarrow> trim (c # cs) = c # rev (dropWhile is_space (rev cs))"
proof (cases "\<forall>x\<in>set cs. is_space x")
  case True
  then have "dropWhile is_space (rev cs) = []" by (simp add: dropWhile_eq_Nil_conv)
  with True show ?thesis if "\<not> is_space c" using that by (simp add: trim_def dropWhile_append)
next
  case False
  then show ?thesis if "\<not> is_space c" using that by (simp add: trim_def dropWhile_append)
qed

lemma trim_eq_Nil_iff: "trim s = [] \<longleftrightarrow> (\<forall>c\<in>set s. is_space c)"
proof (cases "dropWhile is_space s")
  case Nil
  have "trim s = []" unfolding trim_def Nil by simp
  moreover from Nil have "\<forall>c\<in>set s. is_space c" by (simp add: dropWhile_eq_Nil_conv)
  ultimately show ?thesis by simp
next
  case (Cons c cs)
  then have c: "\<not> is_space c" by (metis hd_dropWhile list.sel(1) list.distinct(1))
  from Cons have "c \<in> set s" by (metis list.set_intros(1) set_dropWhileD)
  with c have "\<not> (\<forall>c\<in>set s. is_space c)" by blast
  moreover from Cons c have "trim s \<noteq> []" by (simp add: trim_def dropWhile_append)
  ultimately show ?thesis by simp
qed

lemma hd_trim_nonspace: "trim s \<noteq> [] \<Longrightarrow> \<not> is_space (hd (trim s))"
proof -
  assume ne: "trim s \<noteq> []"
  then obtain c cs where d: "dropWhile is_space s = c # cs"
    by (cases "dropWhile is_space s") (auto simp: trim_def)
  then have c: "\<not> is_space c" by (metis hd_dropWhile list.sel(1) list.distinct(1))
  from d have "trim s = trim (c # cs)" by (simp add: trim_def c)
  with c show ?thesis by (simp add: trim_Cons_nonspace)
qed

lemma trim_id:
  assumes "s = [] \<or> (\<not> is_space (hd s) \<and> \<not> is_space (last s))"
  shows "trim s = s"
proof (cases "s = []")
  case True
  then show ?thesis by (simp add: trim_def)
next
  case False
  with assms have h: "\<not> is_space (hd s)" and l: "\<not> is_space (last s)" by auto
  from h False have d: "dropWhile is_space s = s" by (cases s) auto
  from False obtain ys y where s: "s = ys @ [y]" by (cases s rule: rev_cases) auto
  with l have "dropWhile is_space (rev s) = rev s" by simp
  with d show ?thesis by (simp add: trim_def)
qed

lemma trim_fixed_ends:
  "trim s = s \<Longrightarrow> s \<noteq> [] \<Longrightarrow> \<not> is_space (hd s) \<and> \<not> is_space (last s)"
proof -
  assume t: "trim s = s" and ne: "s \<noteq> []"
  from t ne have h: "\<not> is_space (hd s)" using hd_trim_nonspace [of s] by simp
  have "rev s = dropWhile is_space (rev (dropWhile is_space s))"
    using t by (metis rev_rev_ident trim_def)
  moreover from ne have "rev s \<noteq> []" by simp
  ultimately have "\<not> is_space (hd (rev s))" by (metis hd_dropWhile)
  with ne h show ?thesis by (simp add: hd_rev)
qed

lemma split_comma_from_no_comma:
  "COMMA \<notin> set s \<Longrightarrow> split_comma_from piece s = [piece @ s]"
  by (induction s arbitrary: piece) auto

lemma split_comma_from_field:
  "COMMA \<notin> set a \<Longrightarrow>
   split_comma_from piece (a @ COMMA # b) = (piece @ a) # split_comma_from [] b"
  by (induction a arbitrary: piece) auto

lemma hd_split_comma_from:
  "hd (split_comma_from piece s) = piece @ takeWhile (\<lambda>c. c \<noteq> COMMA) s"
  by (induction s arbitrary: piece) auto

lemma split_comma_from_nonempty: "split_comma_from piece s \<noteq> []"
  by (induction s arbitrary: piece) auto

lemma split_lines_from_nonempty: "split_lines_from piece s \<noteq> []"
  by (induction piece s rule: split_lines_from.induct) auto

lemma split_lines_from_last_line:
  "LF \<notin> set l \<Longrightarrow> split_lines_from piece l = [piece @ l]"
proof (induction l arbitrary: piece)
  case Nil
  show ?case by simp
next
  case (Cons c cs)
  then have "take 1 cs \<noteq> [LF]" by (cases cs) auto
  with Cons show ?case by auto
qed

lemma split_lines_from_LF:
  "LF \<notin> set l \<Longrightarrow> l \<noteq> [] \<longrightarrow> last l \<noteq> CR \<Longrightarrow>
   split_lines_from piece (l @ LF # rest) = (piece @ l) # split_lines_from [] rest"
proof (induction l arbitrary: piece)
  case Nil
  show ?case by (simp add: LF_def CR_def)
next
  case (Cons c cs)
  from Cons.prems have c: "c \<noteq> LF" by auto
  have nt: "\<not> (c = CR \<and> take 1 (cs @ LF # rest) = [LF])"
  proof (cases cs)
    case Nil
    with Cons.prems show ?thesis by (simp add: LF_def CR_def)
  next
    case (Cons d ds)
    with Cons.prems show ?thesis by auto
  qed
  from Cons.prems have "LF \<notin> set cs" "cs \<noteq> [] \<longrightarrow> last cs \<noteq> CR" by auto
  from Cons.IH [OF this, of "piece @ [c]"] c nt show ?case by simp
qed

lemma split_lines_from_CRLF:
  "LF \<notin> set l \<Longrightarrow> l \<noteq> [] \<longrightarrow> last l \<noteq> CR \<Longrightarrow>
   split_lines_from piece (l @ CR # LF # rest) = (piece @ l) # split_lines_from [] rest"
proof (induction l arbitrary: piece)
  case Nil
  show ?case by simp
next
  case (Cons c cs)
  from Cons.prems have c: "c \<noteq> LF" by auto
  have nt: "\<not> (c = CR \<and> take 1 (cs @ CR # LF # rest) = [LF])"
  proof (cases cs)
    case Nil
    with Cons.prems show ?thesis by (simp add: LF_def CR_def)
  next
    case (Cons d ds)
    with Cons.prems show ?thesis by auto
  qed
  from Cons.prems have "LF \<notin> set cs" "cs \<noteq> [] \<longrightarrow> last cs \<noteq> CR" by auto
  from Cons.IH [OF this, of "piece @ [c]"] c nt show ?case by simp
qed

section \<open>The loader, line by line\<close>

lemma parse_rows_concat:
  "parse_rows lines i data = data @ concat (map row_rules (drop i lines))"
proof (induction lines i data rule: parse_rows.induct)
  case (1 lines i data)
  show ?case
  proof (cases "i < length lines")
    case False
    then show ?thesis by (simp add: parse_rows.simps [of lines i data])
  next
    case True
    then have d: "drop i lines = lines ! i # drop (Suc i) lines"
      by (simp add: Cons_nth_drop_Suc)
    show ?thesis
    proof (cases "trim (lines ! i) = []")
      case e: True
      with True "1.IH"(1) [OF True refl e] d show ?thesis
        by (simp add: parse_rows.simps [of lines i data] row_rules_def)
    next
      case ne: False
      show ?thesis
      proof (cases "2 \<le> length (split_comma (trim (lines ! i)))")
        case two: True
        with True ne "1.IH"(2) [OF True refl ne refl two] d show ?thesis
          by (simp add: parse_rows.simps [of lines i data] row_rules_def Let_def)
      next
        case few: False
        with True ne "1.IH"(3) [OF True refl ne refl few] d show ?thesis
          by (simp add: parse_rows.simps [of lines i data] row_rules_def Let_def)
      qed
    qed
  qed
qed

lemma split_lines_nonempty: "split_lines s \<noteq> []"
  by (simp add: split_lines_def split_lines_from_nonempty)

lemma parseCSV_rows:
  "parseCSV csvText =
     concat (map row_rules
       (drop (if includes_str (hd (split_lines csvText)) HEADER_MARKER then 1 else 0)
          (split_lines csvText)))"
proof -
  have m: "HEADER_MARKER \<noteq> []" by (simp add: HEADER_MARKER_def)
  have "split_lines csvText ! 0 = hd (split_lines csvText)"
    using split_lines_nonempty [of csvText] by (simp add: hd_conv_nth)
  moreover have "\<not> includes_str [] HEADER_MARKER" using m by simp
  ultimately show ?thesis
    by (auto simp: parseCSV_def Let_def parse_rows_concat)
qed

lemma is_space_simps [simp]:
  "is_space CR" "is_space LF" "\<not> is_space COMMA"
  by (simp_all add: is_space_def CR_def LF_def COMMA_def)

lemma row_rules_keyword_empty_iff:
  assumes "r \<in> set (row_rules l)"
  shows "keyword r = [] \<longleftrightarrow> take 1 (trim l) = [COMMA]"
proof -
  from assms have ne: "trim l \<noteq> []" and
      k: "keyword r = trim (split_comma (trim l) ! 0)"
    by (auto simp: row_rules_def Let_def split: if_splits)
  from ne obtain c cs where t: "trim l = c # cs" by (cases "trim l") auto
  with hd_trim_nonspace [OF ne] have c: "\<not> is_space c" by simp
  have "split_comma (trim l) ! 0 = takeWhile (\<lambda>c. c \<noteq> COMMA) (trim l)"
    using hd_split_comma_from [of "[]" "trim l"] split_comma_from_nonempty [of "[]" "trim l"]
    by (simp add: split_comma_def hd_conv_nth)
  with k have k': "keyword r = trim (takeWhile (\<lambda>c. c \<noteq> COMMA) (c # cs))"
    by (simp add: t)
  show ?thesis
  proof (cases "c = COMMA")
    case True
    with k' t show ?thesis by (simp add: trim_def)
  next
    case False
    with k' c t show ?thesis by (simp add: trim_Cons_nonspace)
  qed
qed

lemma split_lines_from_join_LF:
  "ls \<noteq> [] \<Longrightarrow> \<forall>l\<in>set ls. plain_line l \<Longrightarrow>
   split_lines_from piece (join_with [LF] ls) = (piece @ hd ls) # tl ls"
proof (induction ls arbitrary: piece)
  case Nil
  then show ?case by simp
next
  case (Cons l ls)
  show ?case
  proof (cases ls)
    case Nil
    with Cons.prems show ?thesis by (simp add: split_lines_from_last_line plain_line_def)
  next
    case (Cons m ms)
    with Cons.prems Cons.IH [of "[]"] show ?thesis
      by (simp add: split_lines_from_LF plain_line_def)
  qed
qed

lemma split_lines_from_join_CRLF:
  "ls \<noteq> [] \<Longrightarrow> \<forall>l\<in>set ls. plain_line l \<Longrightarrow>
   split_lines_from piece (join_with [CR, LF] ls) = (piece @ hd ls) # tl ls"
proof (induction ls arbitrary: piece)
  case Nil
  then show ?case by simp
next
  case (Cons l ls)
  show ?case
  proof (cases ls)
    case Nil
    with Cons.prems show ?thesis by (simp add: split_lines_from_last_line plain_line_def)
  next
    case (Cons m ms)
    with Cons.prems Cons.IH [of "[]"] show ?thesis
      by (simp add: split_lines_from_CRLF plain_line_def)
  qed
qed

lemma plain_field_line:
  assumes "plain_field (keyword r)" and "plain_field (driver r)"
  shows "plain_line (rule_line r)"
proof -
  have "last (rule_line r) \<noteq> CR"
  proof (cases "driver r = []")
    case True
    then show ?thesis by (simp add: rule_line_def COMMA_def CR_def)
  next
    case False
    with assms(2) have "\<not> is_space (last (driver r))"
      using trim_fixed_ends [of "driver r"] by (simp add: plain_field_def)
    with False show ?thesis by (auto simp: rule_line_def)
  qed
  with assms show ?thesis
    by (simp add: plain_line_def plain_field_def rule_line_def COMMA_def LF_def)
qed

lemma row_rules_rule_line:
  assumes "plain_field (keyword r)" and "plain_field (driver r)"
  shows "row_rules (rule_line r) = [r]"
proof -
  have h: "\<not> is_space (hd (rule_line r))"
    using assms(1) trim_fixed_ends [of "keyword r"]
    by (cases "keyword r = []") (auto simp: rule_line_def plain_field_def)
  have l: "\<not> is_space (last (rule_line r))"
    using assms(2) trim_fixed_ends [of "driver r"]
    by (cases "driver r = []") (auto simp: rule_line_def plain_field_def)
  from h l have t: "trim (rule_line r) = rule_line r" by (simp add: trim_id)
  have s: "split_comma (rule_line r) = [keyword r, driver r]"
    using assms
    by (simp add: split_comma_def rule_line_def split_comma_from_field
        split_comma_from_no_comma plain_field_def)
  from assms have "trim (keyword r) = keyword r" "trim (driver r) = driver r"
    by (simp_all add: plain_field_def)
  with t s show ?thesis by (simp add: row_rules_def rule_line_def)
qed

lemma parseCSV_round_trip:
  assumes "\<forall>r\<in>set rs. plain_field (keyword r) \<and> plain_field (driver r)"
    and "rs \<noteq> [] \<longrightarrow> \<not> includes_str (rule_line (hd rs)) HEADER_MARKER"
  shows "parseCSV (join_with [LF] (map rule_line rs)) = rs"
proof (cases "rs = []")
  case True
  have "parseCSV [] = []" by code_simp
  with True show ?thesis by simp
next
  case False
  from assms(1) have "\<forall>l\<in>set (map rule_line rs). plain_line l"
    by (auto simp: plain_field_line)
  with False have sp: "split_lines (join_with [LF] (map rule_line rs)) = map rule_line rs"
    by (simp add: split_lines_def split_lines_from_join_LF)
  from assms(1) have "concat (map row_rules (map rule_line rs)) = rs"
    by (induction rs) (simp_all add: row_rules_rule_line)
  with sp False assms(2) show ?thesis
    by (simp add: parseCSV_rows hd_map)
qed

section \<open>Claims about the matcher\<close>

text \<open>
  Claim C6. The matcher returns no match whenever the text is empty, whatever the
  table, and whenever the table is empty, whatever the text; this holds for the
  exact-only matcher and for the matcher with the normalized test. Both are total
  functions of text and table: no input makes them fail.
\<close>

theorem findDriver_no_match_on_empty:
  "findDriver [] table = None \<and> findDriver text [] = None \<and>
   findDriver_normalized [] table = None \<and> findDriver_normalized text [] = None"
  by (simp add: findDriver_def findDriver_normalized_def)

text \<open>
  Claim C1, as amended. The matcher with the normalized test makes one pass over the
  table and applies both tests to a rule before it moves to the next. So for a
  non-empty text, where a later rule's keyword appears literally and an earlier rule's
  keyword matches only after normalization, the result is the first rule in table
  order that matches either way: it stands at or before the earlier rule, hence
  before the later, exactly matching one.
\<close>

theorem findDriver_normalized_per_rule:
  assumes "text \<noteq> []" and "i < j" and "j < length table"
    and "includes_str text (keyword (table ! j))"
    and "\<not> includes_str text (keyword (table ! i))"
    and "includes_str (normalize_str text) (normalize_str (keyword (table ! i)))"
  shows "\<exists>m\<le>i. findDriver_normalized text table = Some (table ! m) \<and>
      (includes_str text (keyword (table ! m)) \<or>
       includes_str (normalize_str text) (normalize_str (keyword (table ! m)))) \<and>
      (\<forall>k<m. \<not> includes_str text (keyword (table ! k)) \<and>
         \<not> includes_str (normalize_str text) (normalize_str (keyword (table ! k))))"
proof -
  let ?P = "\<lambda>r. includes_str (normalize_str text) (normalize_str (keyword r))"
  from assms have "i < length table" by simp
  from find_first_index [of i table ?P, OF this assms(6)] obtain m where
    m: "m \<le> i" "List.find ?P table = Some (table ! m)" "?P (table ! m)"
       "\<forall>k<m. \<not> ?P (table ! k)"
    by blast
  from m(4) have "\<forall>k<m. \<not> includes_str text (keyword (table ! k))"
    using includes_str_normalize by blast
  with m assms(1) show ?thesis
    by (auto simp: findDriver_normalized_find)
qed

text \<open>
  The text is \<open>abc\<close>; the table has keyword \<open>a b\<close> before keyword \<open>c\<close>. The later
  keyword appears literally, the earlier one only after normalization, and the
  earlier rule is returned.
\<close>

theorem findDriver_normalized_per_rule_witness:
  "text_abc \<noteq> [] \<and>
   includes_str text_abc (keyword rule_c) \<and>
   \<not> includes_str text_abc (keyword rule_a_b) \<and>
   includes_str (normalize_str text_abc) (normalize_str (keyword rule_a_b)) \<and>
   findDriver_normalized text_abc [rule_a_b, rule_c] = Some rule_a_b"
proof -
  let ?table = "[rule_a_b, rule_c]"
  have h1: "text_abc \<noteq> []" by code_simp
  have h2: "(0::nat) < 1" by simp
  have h3: "1 < length ?table" by simp
  have h4: "includes_str text_abc (keyword (?table ! 1))" by code_simp
  have h5: "\<not> includes_str text_abc (keyword (?table ! 0))" by code_simp
  have h6: "includes_str (normalize_str text_abc) (normalize_str (keyword (?table ! 0)))"
    by code_simp
  from findDriver_normalized_per_rule [OF h1 h2 h3 h4 h5 h6]
  have "findDriver_normalized text_abc ?table = Some rule_a_b" by auto
  with h1 h4 h5 h6 show ?thesis by simp
qed

text \<open>
  Claim C1, as stated, fails on the same input: the later rule matches exactly, the
  earlier one only after normalization, and the earlier rule wins.
\<close>

theorem findDriver_normalized_later_exact_counterexample:
  "includes_str text_abc (keyword rule_c) \<and>
   \<not> includes_str text_abc (keyword rule_a_b) \<and>
   includes_str (normalize_str text_abc) (normalize_str (keyword rule_a_b)) \<and>
   findDriver_normalized text_abc [rule_a_b, rule_c] = Some rule_a_b \<and>
   findDriver_normalized text_abc [rule_a_b, rule_c] \<noteq> Some rule_c"
  by code_simp

text \<open>
  Claim C4, as amended. In the exact-only matcher, for a non-empty text: where a
  later rule's keyword is a substring of an earlier rule's keyword, the text contains
  the later keyword literally but not the earlier one, and no other rule before the
  later one has its keyword in the text, the later rule is returned. The first rule
  in table order whose keyword appears wins; length and specificity play no part.
\<close>

theorem findDriver_first_appearing:
  assumes "text \<noteq> []" and "i < j" and "j < length table"
    and "includes_str (keyword (table ! i)) (keyword (table ! j))"
    and "includes_str text (keyword (table ! j))"
    and "\<not> includes_str text (keyword (table ! i))"
    and "\<forall>k<j. k \<noteq> i \<longrightarrow> \<not> includes_str text (keyword (table ! k))"
  shows "findDriver text table = Some (table ! j)"
proof -
  let ?P = "\<lambda>r. includes_str text (keyword r)"
  from find_first_index [of j table ?P, OF assms(3) assms(5)] obtain m where
    m: "m \<le> j" "List.find ?P table = Some (table ! m)" "?P (table ! m)"
    by blast
  have "m = j"
  proof (rule ccontr)
    assume "m \<noteq> j"
    with m(1) have "m < j" by simp
    with assms(6,7) m(3) show False by (cases "m = i") auto
  qed
  with m(2) assms(1) show ?thesis by (simp add: findDriver_find)
qed

text \<open>
  The text is \<open>cb\<close>; the table has keyword \<open>ab\<close> before keyword \<open>b\<close>. Only the
  shorter, later keyword appears, and its rule is returned.
\<close>

theorem findDriver_first_appearing_witness:
  "text_cb \<noteq> [] \<and>
   includes_str (keyword rule_ab) (keyword rule_b) \<and>
   includes_str text_cb (keyword rule_b) \<and>
   \<not> includes_str text_cb (keyword rule_ab) \<and>
   findDriver text_cb [rule_ab, rule_b] = Some rule_b"
proof -
  let ?table = "[rule_ab, rule_b]"
  have h1: "text_cb \<noteq> []" by code_simp
  have h2: "(0::nat) < 1" by simp
  have h3: "1 < length ?table" by simp
  have h4: "includes_str (keyword (?table ! 0)) (keyword (?table ! 1))" by code_simp
  have h5: "includes_str text_cb (keyword (?table ! 1))" by code_simp
  have h6: "\<not> includes_str text_cb (keyword (?table ! 0))" by code_simp
  have h7: "\<forall>k<1. k \<noteq> (0::nat) \<longrightarrow> \<not> includes_str text_cb (keyword (?table ! k))"
    by simp
  from findDriver_first_appearing [OF h1 h2 h3 h4 h5 h6 h7] h1 h4 h5 h6
  show ?thesis by simp
qed

text \<open>
  Claim C4, as stated, fails where the text is empty: with keyword \<open>a\<close> before the
  empty keyword (a table that \<open>parseCSV\<close> produces from \<open>a,X\<close>, LF, \<open>,Y\<close>), the
  empty text contains the later keyword and not the earlier one, and the guard on the
  text returns no match.
\<close>

theorem findDriver_empty_text_counterexample:
  "parseCSV csv_a_then_no_keyword = [rule_a, rule_empty] \<and>
   includes_str (keyword rule_a) (keyword rule_empty) \<and>
   includes_str [] (keyword rule_empty) \<and>
   \<not> includes_str [] (keyword rule_a) \<and>
   findDriver [] [rule_a, rule_empty] = None \<and>
   findDriver [] [rule_a, rule_empty] \<noteq> Some rule_empty"
  by code_simp

text \<open>
  Claim C9. Whenever the exact-only matcher returns a rule, the matcher with the
  normalized test returns a rule as well, found at a table position no later than the
  position where the exact-only matcher stopped: the added test never turns a match
  into no match.
\<close>

theorem normalized_pass_keeps_exact_matches:
  assumes "findDriver text table = Some r"
  shows "\<exists>i j. j \<le> i \<and> i < length table \<and> table ! i = r \<and>
      includes_str text (keyword r) \<and>
      (\<forall>k<i. \<not> includes_str text (keyword (table ! k))) \<and>
      findDriver_normalized text table = Some (table ! j) \<and>
      (\<forall>k<j. \<not> includes_str text (keyword (table ! k)) \<and>
         \<not> includes_str (normalize_str text) (normalize_str (keyword (table ! k))))"
proof -
  from assms have ne: "text \<noteq> []" by (auto simp: findDriver_def split: if_splits)
  with assms have "List.find (\<lambda>r. includes_str text (keyword r)) table = Some r"
    by (simp add: findDriver_find)
  then obtain i where i: "i < length table" "includes_str text (keyword (table ! i))"
      "r = table ! i" "\<forall>k<i. \<not> includes_str text (keyword (table ! k))"
    by (auto simp: find_Some_iff)
  let ?P = "\<lambda>r. includes_str (normalize_str text) (normalize_str (keyword r))"
  from i(2) have "?P (table ! i)" by (rule includes_str_normalize)
  from find_first_index [of i table ?P, OF i(1) this] obtain j where
    j: "j \<le> i" "List.find ?P table = Some (table ! j)" "\<forall>k<j. \<not> ?P (table ! k)"
    by blast
  from j(3) have e: "\<forall>k<j. \<not> includes_str text (keyword (table ! k))"
    using includes_str_normalize by blast
  from ne j(2) have "findDriver_normalized text table = Some (table ! j)"
    by (simp add: findDriver_normalized_find)
  with i j(1,3) e have "j \<le> i \<and> i < length table \<and> table ! i = r \<and>
      includes_str text (keyword r) \<and>
      (\<forall>k<i. \<not> includes_str text (keyword (table ! k))) \<and>
      findDriver_normalized text table = Some (table ! j) \<and>
      (\<forall>k<j. \<not> includes_str text (keyword (table ! k)) \<and>
         \<not> includes_str (normalize_str text) (normalize_str (keyword (table ! k))))"
    by simp
  then show ?thesis by blast
qed

text \<open>
  The text is \<open>abc\<close>, the table has keyword \<open>a b\<close> before keyword \<open>c\<close>: the
  exact-only matcher returns the second rule, the other matcher the first.
\<close>

theorem normalized_pass_keeps_exact_matches_witness:
  "findDriver text_abc [rule_a_b, rule_c] = Some rule_c \<and>
   (\<exists>i j. j \<le> i \<and> i < length [rule_a_b, rule_c] \<and> [rule_a_b, rule_c] ! i = rule_c \<and>
      findDriver_normalized text_abc [rule_a_b, rule_c] = Some ([rule_a_b, rule_c] ! j)) \<and>
   findDriver_normalized text_abc [rule_a_b, rule_c] = Some rule_a_b"
proof -
  have h: "findDriver text_abc [rule_a_b, rule_c] = Some rule_c" by code_simp
  have n: "findDriver_normalized text_abc [rule_a_b, rule_c] = Some rule_a_b" by code_simp
  from normalized_pass_keeps_exact_matches [OF h] h n show ?thesis by blast
qed

text \<open>
  Claim C10. In the matcher with the normalized test, a rule whose keyword consists
  only of whitespace, periods, hyphens and commas has a keyword that normalizes to the
  empty string, and then every non-empty text is matched by that rule or by one before
  it, since the empty string is contained in every string.
\<close>

theorem noise_only_keyword_matches_everything:
  assumes "text \<noteq> []" and "i < length table"
    and "\<forall>c\<in>set (keyword (table ! i)). is_noise c"
  shows "normalize_str (keyword (table ! i)) = [] \<and>
     (\<exists>j\<le>i. findDriver_normalized text table = Some (table ! j))"
proof -
  let ?P = "\<lambda>r. includes_str (normalize_str text) (normalize_str (keyword r))"
  from assms(3) have e: "normalize_str (keyword (table ! i)) = []"
    by (simp add: normalize_str_empty_iff)
  then have "?P (table ! i)" by simp
  from find_first_index [of i table ?P, OF assms(2) this] obtain j where
    "j \<le> i" "List.find ?P table = Some (table ! j)" by blast
  with e assms(1) show ?thesis by (auto simp: findDriver_normalized_find)
qed

text \<open>
  The text is \<open>abc\<close>; the second rule's keyword is a space, a period, a hyphen and a
  comma; the first rule's keyword \<open>x\<close> does not match.
\<close>

theorem noise_only_keyword_matches_everything_witness:
  "text_abc \<noteq> [] \<and>
   list_all is_noise (keyword rule_noise) \<and>
   normalize_str (keyword rule_noise) = [] \<and>
   (\<exists>j\<le>1. findDriver_normalized text_abc [rule_x, rule_noise] =
      Some ([rule_x, rule_noise] ! j)) \<and>
   findDriver_normalized text_abc [rule_x, rule_noise] = Some rule_noise"
proof -
  let ?table = "[rule_x, rule_noise]"
  have h1: "text_abc \<noteq> []" by code_simp
  have h2: "1 < length ?table" by simp
  have h3: "list_all is_noise (keyword rule_noise)" by code_simp
  then have h3': "\<forall>c\<in>set (keyword (?table ! 1)). is_noise c"
    by (simp add: list_all_iff)
  have h4: "findDriver_normalized text_abc ?table = Some rule_noise" by code_simp
  from noise_only_keyword_matches_everything [OF h1 h2 h3'] h1 h3 h4
  show ?thesis by simp
qed

section \<open>Claims about the anchor extractor\<close>

text \<open>
  Claim C5, as amended. For every text containing the first anchor (U+D574 U+C6B4
  U+B300), the result is the trimmed rest of the text after the leftmost occurrence of
  that anchor, wherever the second anchor may occur. The rest runs to the end of the
  text: on the example label, which ends in three periods, the result is U+B300
  U+B85C, a space, \<open>123\<close> and the three periods; it is U+B300 U+B85C, a space and
  \<open>123\<close> when the label ends after \<open>123\<close>.
\<close>

theorem extract_after_first_anchor:
  "(includes_str text HAEUNDAE \<longrightarrow>
      (\<exists>pre post. text = pre @ HAEUNDAE @ post \<and>
         (\<forall>pre' post'. text = pre' @ HAEUNDAE @ post' \<longrightarrow> length pre \<le> length pre') \<and>
         extractAddressAfterAnchor text = trim post)) \<and>
   extractAddressAfterAnchor label_with_dots = road_123_dots \<and>
   extractAddressAfterAnchor label_ending = road_123"
proof (intro conjI impI)
  assume "includes_str text HAEUNDAE"
  from indexOf_leftmost [OF this] obtain pre post where
    t: "text = pre @ HAEUNDAE @ post" and i: "indexOf text HAEUNDAE = int (length pre)" and
    least: "\<forall>pre' post'. text = pre' @ HAEUNDAE @ post' \<longrightarrow> length pre \<le> length pre'"
    by blast
  have "length HAEUNDAE = 3" by (simp add: HAEUNDAE_def)
  then have "drop (length pre + 3) (pre @ HAEUNDAE @ post) = post" by simp
  then have "substring text (int (length pre) + 3) = post"
    by (simp add: substring_def t nat_add_distrib)
  with i have "extractAddressAfterAnchor text = trim post"
    by (simp add: extractAddressAfterAnchor_def)
  with t least show "\<exists>pre post. text = pre @ HAEUNDAE @ post \<and>
      (\<forall>pre' post'. text = pre' @ HAEUNDAE @ post' \<longrightarrow> length pre \<le> length pre') \<and>
      extractAddressAfterAnchor text = trim post"
    by blast
next
  show "extractAddressAfterAnchor label_with_dots = road_123_dots" by code_simp
next
  show "extractAddressAfterAnchor label_ending = road_123" by code_simp
qed

text \<open>
  The label begins with the second anchor (U+BD80 U+C0B0) and has the first anchor
  further right: the first anchor decides.
\<close>

theorem extract_after_first_anchor_witness:
  "includes_str label_both_anchors HAEUNDAE \<and>
   includes_str label_both_anchors BUSAN \<and>
   (\<exists>pre post. label_both_anchors = pre @ HAEUNDAE @ post \<and>
      extractAddressAfterAnchor label_both_anchors = trim post) \<and>
   extractAddressAfterAnchor label_both_anchors = road_123"
proof -
  have h: "includes_str label_both_anchors HAEUNDAE" by code_simp
  have b: "includes_str label_both_anchors BUSAN" by code_simp
  have r: "extractAddressAfterAnchor label_both_anchors = road_123" by code_simp
  from extract_after_first_anchor [of label_both_anchors] h
  have "\<exists>pre post. label_both_anchors = pre @ HAEUNDAE @ post \<and>
      extractAddressAfterAnchor label_both_anchors = trim post"
    by blast
  with h b r show ?thesis by blast
qed

text \<open>
  Claim C5, as stated, fails on its own example read literally: the three periods
  that end the label stay in the result.
\<close>

theorem extract_example_keeps_tail_counterexample:
  "includes_str label_with_dots HAEUNDAE \<and>
   extractAddressAfterAnchor label_with_dots = road_123_dots \<and>
   extractAddressAfterAnchor label_with_dots \<noteq> road_123"
  by code_simp

text \<open>
  Claim C8. A text that contains neither anchor is returned unchanged; the extractor
  is a total function, so it never fails.
\<close>

theorem extract_identity_without_anchor:
  assumes "\<not> includes_str text HAEUNDAE" and "\<not> includes_str text BUSAN"
  shows "extractAddressAfterAnchor text = text"
  using assms by (simp add: extractAddressAfterAnchor_def indexOf_none)

text \<open>The text is \<open>abc\<close>.\<close>

theorem extract_identity_without_anchor_witness:
  "\<not> includes_str text_abc HAEUNDAE \<and> \<not> includes_str text_abc BUSAN \<and>
   extractAddressAfterAnchor text_abc = text_abc"
proof -
  have h1: "\<not> includes_str text_abc HAEUNDAE" by code_simp
  have h2: "\<not> includes_str text_abc BUSAN" by code_simp
  from extract_identity_without_anchor [OF h1 h2] h1 h2 show ?thesis by blast
qed

section \<open>Claims about the rule table loader\<close>

text \<open>
  Claim C2, as amended. A rule of the parsed table has a non-empty keyword unless the
  first character of its line that is not whitespace is a comma: for every input where
  no line, once trimmed, begins with a comma, no rule of the table has an empty
  keyword.
\<close>

theorem parseCSV_keyword_nonempty:
  assumes "\<forall>l\<in>set (split_lines csvText). take 1 (trim l) \<noteq> [COMMA]"
  shows "\<forall>r\<in>set (parseCSV csvText). keyword r \<noteq> []"
proof
  fix r
  assume "r \<in> set (parseCSV csvText)"
  then obtain l where l: "l \<in> set (split_lines csvText)" and r: "r \<in> set (row_rules l)"
    by (auto simp: parseCSV_rows dest: in_set_dropD split: if_splits)
  from assms l have "take 1 (trim l) \<noteq> [COMMA]" by blast
  with row_rules_keyword_empty_iff [OF r] show "keyword r \<noteq> []" by simp
qed

text \<open>The input is \<open>a,X\<close>, LF, \<open>b,Y\<close>.\<close>

theorem parseCSV_keyword_nonempty_witness:
  "list_all (\<lambda>l. take 1 (trim l) \<noteq> [COMMA]) (split_lines csv_two_LF) \<and>
   list_all (\<lambda>r. keyword r \<noteq> []) (parseCSV csv_two_LF) \<and>
   parseCSV csv_two_LF = rules_two"
proof -
  have h: "list_all (\<lambda>l. take 1 (trim l) \<noteq> [COMMA]) (split_lines csv_two_LF)"
    by code_simp
  then have h': "\<forall>l\<in>set (split_lines csv_two_LF). take 1 (trim l) \<noteq> [COMMA]"
    by (simp only: list_all_iff)
  have r: "parseCSV csv_two_LF = rules_two" by code_simp
  from parseCSV_keyword_nonempty [OF h']
  have "list_all (\<lambda>r. keyword r \<noteq> []) (parseCSV csv_two_LF)" by (simp only: list_all_iff)
  with h r show ?thesis by blast
qed

text \<open>
  Claim C2, as stated, fails on a line whose first field is empty or blank: the files
  \<open>,X\<close> and space, \<open>,X\<close> each give one rule, with the empty keyword.
\<close>

theorem parseCSV_empty_keyword_counterexample:
  "parseCSV csv_no_keyword = [\<lparr>keyword = [], driver = [0x58]\<rparr>] \<and>
   parseCSV csv_blank_keyword = [\<lparr>keyword = [], driver = [0x58]\<rparr>]"
  by code_simp

text \<open>
  Claim C3, as amended. The input is split at LF and at CR LF only; a CR alone is not
  a line ending. For every list of lines (no LF inside a line, no CR at its end) the
  lines joined with LF and the lines joined with CR LF are split into those same lines
  and parse to the same rule table.
\<close>

theorem parseCSV_LF_CRLF_agree:
  assumes "\<forall>l\<in>set ls. plain_line l"
  shows "parseCSV (join_with [CR, LF] ls) = parseCSV (join_with [LF] ls) \<and>
     (ls \<noteq> [] \<longrightarrow> split_lines (join_with [LF] ls) = ls \<and>
        split_lines (join_with [CR, LF] ls) = ls)"
proof (cases "ls = []")
  case True
  then show ?thesis by simp
next
  case False
  with assms have "split_lines (join_with [LF] ls) = ls"
    and "split_lines (join_with [CR, LF] ls) = ls"
    by (simp_all add: split_lines_def split_lines_from_join_LF split_lines_from_join_CRLF)
  then show ?thesis by (simp add: parseCSV_rows)
qed

text \<open>The lines are \<open>a,X\<close> and \<open>b,Y\<close>.\<close>

theorem parseCSV_LF_CRLF_agree_witness:
  "list_all plain_line lines_two \<and>
   parseCSV (join_with [CR, LF] lines_two) = parseCSV (join_with [LF] lines_two) \<and>
   split_lines (join_with [LF] lines_two) = lines_two \<and>
   split_lines (join_with [CR, LF] lines_two) = lines_two \<and>
   parseCSV (join_with [LF] lines_two) = rules_two"
proof -
  have h: "list_all plain_line lines_two" by code_simp
  then have h': "\<forall>l\<in>set lines_two. plain_line l" by (simp only: list_all_iff)
  have ne: "lines_two \<noteq> []" by code_simp
  have r: "parseCSV (join_with [LF] lines_two) = rules_two" by code_simp
  from parseCSV_LF_CRLF_agree [OF h'] ne h r show ?thesis by blast
qed

text \<open>
  Claim C3, as stated, fails for CR alone: \<open>a,X\<close>, CR, \<open>b,Y\<close> is one line, and its
  second field keeps the CR and the \<open>b\<close>; with LF in place of the CR there are two
  rules.
\<close>

theorem parseCSV_bare_CR_counterexample:
  "parseCSV csv_two_CR = [\<lparr>keyword = [0x61], driver = [0x58, 0x0D, 0x62]\<rparr>] \<and>
   parseCSV csv_two_LF = rules_two \<and>
   parseCSV csv_two_CR \<noteq> parseCSV csv_two_LF"
  by code_simp

text \<open>
  Claim C7. The loader keeps the order of the file and keeps duplicates: the input
  \<open>a,X\<close>, LF, \<open>b,Y\<close>, LF, \<open>a,Z\<close> gives the three rules in that order. In general the
  table is the concatenation, in line order, of what each line after the header
  contributes; and a file that states a list of rules line by line (plain fields, the
  first line without the header marker) parses to exactly that list, whatever its
  order and its repetitions.
\<close>

theorem parseCSV_keeps_order_and_duplicates:
  "parseCSV csv_three = rules_three \<and>
   parseCSV csvText =
     concat (map row_rules
       (drop (if includes_str (hd (split_lines csvText)) HEADER_MARKER then 1 else 0)
          (split_lines csvText))) \<and>
   ((\<forall>r\<in>set rs. plain_field (keyword r) \<and> plain_field (driver r)) \<and>
    (rs \<noteq> [] \<longrightarrow> \<not> includes_str (rule_line (hd rs)) HEADER_MARKER) \<longrightarrow>
    parseCSV (join_with [LF] (map rule_line rs)) = rs)"
proof (intro conjI impI)
  show "parseCSV csv_three = rules_three" by code_simp
next
  show "parseCSV csvText =
     concat (map row_rules
       (drop (if includes_str (hd (split_lines csvText)) HEADER_MARKER then 1 else 0)
          (split_lines csvText)))"
    by (rule parseCSV_rows)
next
  assume "(\<forall>r\<in>set rs. plain_field (keyword r) \<and> plain_field (driver r)) \<and>
    (rs \<noteq> [] \<longrightarrow> \<not> includes_str (rule_line (hd rs)) HEADER_MARKER)"
  then show "parseCSV (join_with [LF] (map rule_line rs)) = rs"
    by (intro parseCSV_round_trip) blast+
qed

text \<open>The rules are those of the example, and their file is the example's input.\<close>

theorem parseCSV_keeps_order_and_duplicates_witness:
  "list_all (\<lambda>r. plain_field (keyword r) \<and> plain_field (driver r)) rules_three \<and>
   \<not> includes_str (rule_line (hd rules_three)) HEADER_MARKER \<and>
   join_with [LF] (map rule_line rules_three) = csv_three \<and>
   parseCSV (join_with [LF] (map rule_line rules_three)) = rules_three"
proof -
  have h: "list_all (\<lambda>r. plain_field (keyword r) \<and> plain_field (driver r)) rules_three"
    by code_simp
  then have h1: "\<forall>r\<in>set rules_three. plain_field (keyword r) \<and> plain_field (driver r)"
    by (simp only: list_all_iff)
  have h2: "\<not> includes_str (rule_line (hd rules_three)) HEADER_MARKER" by code_simp
  have j: "join_with [LF] (map rule_line rules_three) = csv_three" by code_simp
  from parseCSV_keeps_order_and_duplicates [of _ rules_three] h1 h2
  have "parseCSV (join_with [LF] (map rule_line rules_three)) = rules_three" by blast
  with h h2 j show ?thesis by blast
qed

end
